theory Spec2Isabelle
  imports Main
begin

section \<open>CMS lock verification (cmsLockVerifier.cpp)\<close>

text \<open>
  \<^verbatim>\<open>CMSLockVerifier::assert_locked(const Mutex* lock, const Mutex* p_lock)\<close> is embedded
  as a pure function of the runtime facts it reads. The embedding is that of a debug build,
  where \<^verbatim>\<open>assert\<close> and \<^verbatim>\<open>ShouldNotReachHere\<close> are active: each of them is a branch
  that ends the call with a failure value naming the assertion.
\<close>

datatype lock_failure =
    Unexpected_state                \<comment> \<open>line 46: \<^verbatim>\<open>assert(p_lock == NULL, ...)\<close>\<close>
  | Not_the_CMS_thread              \<comment> \<open>line 50: \<^verbatim>\<open>assert(myThread == cmst(), ...)\<close>\<close>
  | CMS_thread_without_token        \<comment> \<open>line 52\<close>
  | VM_thread_without_token         \<comment> \<open>line 55\<close>
  | Unexpected_thread_type          \<comment> \<open>line 61\<close>
  | Must_own_lock                   \<comment> \<open>\<^verbatim>\<open>assert_lock_strong\<close>, lines 67 and 73\<close>
  | Possible_race                   \<comment> \<open>line 81\<close>
  | Not_locked_on_my_behalf         \<comment> \<open>line 89\<close>
  | Should_not_reach_here           \<comment> \<open>line 94\<close>

text \<open>
  A \<^verbatim>\<open>Thread*\<close> is an address (\<open>None\<close> is \<^verbatim>\<open>NULL\<close>). The class \<^verbatim>\<open>Thread\<close> is declared
  outside the sources at hand; the four role queries that \<^verbatim>\<open>assert_locked\<close> calls on the
  current thread are taken as independent fields, so nothing about the class hierarchy is
  assumed.
\<close>

type_synonym thread_ptr = "nat option"

record Thread =
  addr :: nat
  is_VM_thread :: bool
  is_ConcurrentGC_thread :: bool
  is_Java_thread :: bool
  is_GC_task_thread :: bool

text \<open>
  A \<^verbatim>\<open>Mutex\<close> enters \<^verbatim>\<open>assert_locked\<close> through three queries only (the class is
  declared outside the sources at hand). What each of them answers to the calling thread
  is a field: \<^verbatim>\<open>owner()\<close>, \<^verbatim>\<open>is_locked()\<close> and \<^verbatim>\<open>owned_by_self()\<close>.
\<close>

record Mutex =
  owner :: thread_ptr
  is_locked :: bool
  owned_by_self :: bool

text \<open>
  Modelled from the spec: \<^verbatim>\<open>assert_lock_strong(lock)\<close> (mutexLocker.cpp is outside the
  sources at hand): "simply verify the calling thread holds \<open>lock\<close>". The comment of
  line 72 says the same of the call: "Make sure that we are holding the associated lock."
\<close>

definition assert_lock_strong :: "Mutex \<Rightarrow> lock_failure + unit" where
  "assert_lock_strong m = (if owned_by_self m then Inr () else Inl Must_own_lock)"

text \<open>The runtime facts read by \<^verbatim>\<open>assert_locked\<close>, one field per query of the source.\<close>

record runtime =
  is_fully_initialized :: bool         \<comment> \<open>\<^verbatim>\<open>Universe::is_fully_initialized()\<close>\<close>
  current :: Thread                    \<comment> \<open>\<^verbatim>\<open>Thread::current()\<close>\<close>
  cmst :: thread_ptr                   \<comment> \<open>\<^verbatim>\<open>ConcurrentMarkSweepThread::cmst()\<close>\<close>
  vm_thread :: thread_ptr              \<comment> \<open>\<^verbatim>\<open>VMThread::vm_thread()\<close>\<close>
  cms_thread_has_cms_token :: bool
  vm_thread_has_cms_token :: bool
  ParallelGCThreads :: nat

definition assert_locked ::
  "runtime \<Rightarrow> Mutex option \<Rightarrow> Mutex option \<Rightarrow> lock_failure + unit" where
  "assert_locked rt lock p_lock =
    (if \<not> is_fully_initialized rt then Inr ()
     else
       let myThread = current rt in
       case lock of
         None \<Rightarrow>
           if p_lock \<noteq> None then Inl Unexpected_state
           else if is_ConcurrentGC_thread myThread then
             (if Some (addr myThread) \<noteq> cmst rt then Inl Not_the_CMS_thread
              else if \<not> cms_thread_has_cms_token rt then Inl CMS_thread_without_token
              else Inr ())
           else if is_VM_thread myThread then
             (if \<not> vm_thread_has_cms_token rt then Inl VM_thread_without_token
              else Inr ())
           else
             (if \<not> is_GC_task_thread myThread then Inl Unexpected_thread_type
              else Inr ())
       | Some l \<Rightarrow>
           if ParallelGCThreads rt = 0 then assert_lock_strong l
           else if is_VM_thread myThread \<or> is_ConcurrentGC_thread myThread
                   \<or> is_Java_thread myThread then
             (case assert_lock_strong l of
                Inl f \<Rightarrow> Inl f
              | Inr _ \<Rightarrow>
                 (case p_lock of
                    None \<Rightarrow> Inr ()
                  | Some p \<Rightarrow>
                      if \<not> is_locked p \<or> owned_by_self p then Inr ()
                      else Inl Possible_race))
           else if is_GC_task_thread myThread then
             (if owner l = vm_thread rt \<or> owner l = cmst rt then Inr ()
              else Inl Not_locked_on_my_behalf)
           else Inl Should_not_reach_here)"

text \<open>
  The spec classifies the calling thread into exactly one role. A thread has the role of
  a coordinator (VM thread), collector (concurrent GC thread), worker (GC task thread) or
  ordinary (Java) thread when that query, and none of the other three, answers yes.
\<close>

definition coordinator_role :: "Thread \<Rightarrow> bool" where
  "coordinator_role t = (is_VM_thread t \<and> \<not> is_ConcurrentGC_thread t
                          \<and> \<not> is_Java_thread t \<and> \<not> is_GC_task_thread t)"

definition collector_role :: "Thread \<Rightarrow> bool" where
  "collector_role t = (is_ConcurrentGC_thread t \<and> \<not> is_VM_thread t
                        \<and> \<not> is_Java_thread t \<and> \<not> is_GC_task_thread t)"

definition worker_role :: "Thread \<Rightarrow> bool" where
  "worker_role t = (is_GC_task_thread t \<and> \<not> is_VM_thread t
                     \<and> \<not> is_ConcurrentGC_thread t \<and> \<not> is_Java_thread t)"

definition ordinary_role :: "Thread \<Rightarrow> bool" where
  "ordinary_role t = (is_Java_thread t \<and> \<not> is_VM_thread t
                       \<and> \<not> is_ConcurrentGC_thread t \<and> \<not> is_GC_task_thread t)"

text \<open>A thread is classified when at most one of the four queries answers yes.\<close>

definition classified :: "Thread \<Rightarrow> bool" where
  "classified t =
     (coordinator_role t \<or> collector_role t \<or> worker_role t \<or> ordinary_role t
      \<or> (\<not> is_VM_thread t \<and> \<not> is_ConcurrentGC_thread t
          \<and> \<not> is_Java_thread t \<and> \<not> is_GC_task_thread t))"

text \<open>Concrete threads, locks and runtimes used to exercise the definitions.\<close>

definition vm_thr :: Thread where
  "vm_thr = \<lparr>addr = 1, is_VM_thread = True, is_ConcurrentGC_thread = False,
            is_Java_thread = False, is_GC_task_thread = False\<rparr>"

definition cms_thr :: Thread where
  "cms_thr = \<lparr>addr = 2, is_VM_thread = False, is_ConcurrentGC_thread = True,
             is_Java_thread = False, is_GC_task_thread = False\<rparr>"

definition java_thr :: Thread where
  "java_thr = \<lparr>addr = 3, is_VM_thread = False, is_ConcurrentGC_thread = False,
              is_Java_thread = True, is_GC_task_thread = False\<rparr>"

definition worker_thr :: Thread where
  "worker_thr = \<lparr>addr = 4, is_VM_thread = False, is_ConcurrentGC_thread = False,
                is_Java_thread = False, is_GC_task_thread = True\<rparr>"

definition watcher_thr :: Thread where
  "watcher_thr = \<lparr>addr = 5, is_VM_thread = False, is_ConcurrentGC_thread = False,
                 is_Java_thread = False, is_GC_task_thread = False\<rparr>"

text \<open>
  The lock held by the thread \<open>h\<close>, and the lock that nobody holds, with the answers
  they give to the calling thread \<open>self\<close>.
\<close>

definition held_by :: "Thread \<Rightarrow> Thread \<Rightarrow> Mutex" where
  "held_by h self =
     \<lparr>owner = Some (addr h), is_locked = True, owned_by_self = (addr h = addr self)\<rparr>"

definition unlocked :: Mutex where
  "unlocked = \<lparr>owner = None, is_locked = False, owned_by_self = False\<rparr>"

text \<open>
  A runtime with the VM thread at address 1 and the CMS thread at address 2, both
  holding their side of the CMS token; \<open>init\<close> says whether the universe is fully
  initialized, \<open>n\<close> is \<^verbatim>\<open>ParallelGCThreads\<close> and \<open>t\<close> the calling thread.
\<close>

definition rt_of :: "bool \<Rightarrow> nat \<Rightarrow> Thread \<Rightarrow> runtime" where
  "rt_of init n t =
     \<lparr>is_fully_initialized = init, current = t, cmst = Some 2, vm_thread = Some 1,
      cms_thread_has_cms_token = True, vm_thread_has_cms_token = True,
      ParallelGCThreads = n\<rparr>"

section \<open>Yielding work gangs (yieldingWorkgroup.hpp)\<close>

subsection \<open>Tasks\<close>

datatype Status =
    INACTIVE
  | ACTIVE
  | YIELDING
  | YIELDED
  | ABORTING
  | ABORTED
  | COMPLETING
  | COMPLETED

datatype gang_failure =
    Clobber_without_reset   \<comment> \<open>line 105: \<^verbatim>\<open>assert(_gang == NULL || gang == NULL, ...)\<close>\<close>
  | Gang_busy               \<comment> \<open>spec: start "fails if a task is already running on this gang"\<close>
  | No_workers              \<comment> \<open>spec: "calling start with no workers available",
                                "running with zero granted workers"\<close>
  | Not_yielded             \<comment> \<open>spec: continue "requires the task is currently Yielded"\<close>
  | Not_inactive            \<comment> \<open>spec: the only transition on dispatch is Inactive \<open>\<rightarrow>\<close> Active\<close>
  | Null_task               \<comment> \<open>a task pointer that points at no task\<close>

text \<open>
  The fields of \<^verbatim>\<open>YieldingFlexibleGangTask\<close>: \<open>t_status\<close> is \<^verbatim>\<open>_status\<close>, \<open>t_gang\<close> is
  \<^verbatim>\<open>_gang\<close> (the address of the gang, \<open>None\<close> for \<^verbatim>\<open>NULL\<close>), \<open>t_actual_size\<close> is
  \<^verbatim>\<open>_actual_size\<close> and \<open>t_requested_size\<close> is \<^verbatim>\<open>_requested_size\<close>, both \<^verbatim>\<open>int\<close>.
\<close>

record YieldingFlexibleGangTask =
  t_status :: Status
  t_gang :: "nat option"
  t_actual_size :: int
  t_requested_size :: int

text \<open>
  The constructor (lines 85--88) sets the status, the gang and the requested size. It
  leaves \<^verbatim>\<open>_actual_size\<close> uninitialized: the value found there is the parameter \<open>a\<close>.
\<close>

definition new_task :: "int \<Rightarrow> YieldingFlexibleGangTask" where
  "new_task a = \<lparr>t_status = INACTIVE, t_gang = None, t_actual_size = a, t_requested_size = 0\<rparr>"

definition set_status :: "Status \<Rightarrow> YieldingFlexibleGangTask \<Rightarrow> YieldingFlexibleGangTask" where
  "set_status s t = t\<lparr>t_status := s\<rparr>"

definition gang :: "YieldingFlexibleGangTask \<Rightarrow> nat option" where
  "gang t = t_gang t"

definition set_gang ::
  "nat option \<Rightarrow> YieldingFlexibleGangTask \<Rightarrow> gang_failure + YieldingFlexibleGangTask" where
  "set_gang g t =
     (if t_gang t = None \<or> g = None then Inr (t\<lparr>t_gang := g\<rparr>)
      else Inl Clobber_without_reset)"

definition status :: "YieldingFlexibleGangTask \<Rightarrow> Status" where
  "status t = t_status t"

definition yielded :: "YieldingFlexibleGangTask \<Rightarrow> bool" where
  "yielded t = (t_status t = YIELDED)"

definition completed :: "YieldingFlexibleGangTask \<Rightarrow> bool" where
  "completed t = (t_status t = COMPLETED)"

definition aborted :: "YieldingFlexibleGangTask \<Rightarrow> bool" where
  "aborted t = (t_status t = ABORTED)"

definition active :: "YieldingFlexibleGangTask \<Rightarrow> bool" where
  "active t = (t_status t = ACTIVE)"

definition requested_size :: "YieldingFlexibleGangTask \<Rightarrow> int" where
  "requested_size t = t_requested_size t"

definition actual_size :: "YieldingFlexibleGangTask \<Rightarrow> int" where
  "actual_size t = t_actual_size t"

definition set_requested_size :: "int \<Rightarrow> YieldingFlexibleGangTask \<Rightarrow> YieldingFlexibleGangTask" where
  "set_requested_size sz t = t\<lparr>t_requested_size := sz\<rparr>"

definition set_actual_size :: "int \<Rightarrow> YieldingFlexibleGangTask \<Rightarrow> YieldingFlexibleGangTask" where
  "set_actual_size sz t = t\<lparr>t_actual_size := sz\<rparr>"

subsection \<open>The gang\<close>

text \<open>
  Modelled from the spec: where a granted worker is during a round. It has been released
  by the coordinator and has not yet called \<^verbatim>\<open>work(i)\<close>, it is inside \<^verbatim>\<open>work(i)\<close>,
  it is parked at its yield point, or it has reported and is back at its waiting station.
\<close>

datatype worker_state = Released | Working | At_yield_point | At_station

text \<open>
  Modelled from the spec: the state of the gang beyond its two counters (the base class
  \<^verbatim>\<open>AbstractWorkGang\<close> and the workers' loop are outside the sources at hand).
  \<open>active_workers\<close> and \<open>yielded_workers\<close> are the two \<^verbatim>\<open>int\<close> fields of lines 190--191
  and \<open>task\<close> is the task pointer that \<^verbatim>\<open>yielding_task()\<close> casts (line 155). From the
  spec come \<open>total_workers\<close>, the size of the pool; \<open>workers\<close>, the state of each worker
  granted to the current round, by index; and \<open>work_calls\<close>, the indices \<open>i\<close> of the calls
  \<^verbatim>\<open>work(i)\<close> that workers have made in the current round, in the order they made them.
  \<open>heap\<close> maps the address of a task to the task object, so that the gang and its
  callers share the task as they do through pointers, and \<open>g_addr\<close> is the address of the
  gang itself.
\<close>

record gang_state =
  g_addr :: nat
  total_workers :: int
  task :: "nat option"
  active_workers :: int
  yielded_workers :: int
  workers :: "worker_state list"
  work_calls :: "nat list"
  heap :: "nat \<Rightarrow> YieldingFlexibleGangTask option"

definition yielding_task :: "gang_state \<Rightarrow> YieldingFlexibleGangTask option" where
  "yielding_task s = (case task s of None \<Rightarrow> None | Some p \<Rightarrow> heap s p)"

text \<open>
  Modelled from the spec: what the other threads do while the caller of
  \<^verbatim>\<open>start_task\<close> or \<^verbatim>\<open>continue_task\<close> is blocked. A released worker begins ("on
  release, call the current task's \<open>work(own index)\<close>"), a worker reports ("on return from
  \<open>work\<close>, report status (yielded / completed / aborted) back to the Coordinator's
  accounting"), or some thread signals a yield or an abort.
\<close>

datatype report = Rep_yielded | Rep_completed | Rep_aborted

datatype event = Begin nat | Report nat report | Yield_request | Abort_request

text \<open>
  How a call of the coordinator ends: a fatal assertion halts the process, the caller
  stays blocked for as long as the schedule at hand lasts, or the call returns.
\<close>

datatype 'a outcome = Halt gang_failure | Blocks | Returns 'a

text \<open>
  Modelled from the spec: every worker "has unwound" when all are back at their stations,
  and every worker has reported in when each is at its station or parked at its yield
  point.
\<close>

definition all_at_station :: "worker_state list \<Rightarrow> bool" where
  "all_at_station ws = list_all (\<lambda>w. w = At_station) ws"

definition all_reported :: "worker_state list \<Rightarrow> bool" where
  "all_reported ws = list_all (\<lambda>w. w = At_yield_point \<or> w = At_station) ws"

text \<open>
  Modelled from the spec: the status once a report is in. The barrier "must not return
  until every one of them has either reached \<open>yielded_workers == active_workers\<close> (round
  yielded) or signaled terminal completion/abort", and "must tolerate workers
  finishing/yielding in any interleaving": while a worker is still to report the status
  stays; when all have reported, a Yielding task is Yielded, a Completing task is
  Completed, and an Aborting task is Aborted "once every worker has unwound".
\<close>

definition settle :: "worker_state list \<Rightarrow> Status \<Rightarrow> Status" where
  "settle ws st =
     (if \<not> all_reported ws then st
      else if st = YIELDING then YIELDED
      else if st = COMPLETING then COMPLETED
      else if st = ABORTING \<and> all_at_station ws then ABORTED
      else st)"

text \<open>
  Modelled from the spec: the effect of a worker's step and of a yield or abort signal on
  the task's status and the gang's counters (the worker loop,
  \<^verbatim>\<open>YieldingFlexibleWorkGang::yield\<close> and \<^verbatim>\<open>abort\<close> are defined in
  yieldingWorkgroup.cpp, which is outside the sources at hand). An event that the spec
  gives no effect in the state at hand leaves the state as it is.
  \<^item> "While Active, a worker-visible yield request drives Active \<open>\<rightarrow>\<close> Yielding; once every
    active worker has honored it, the task reaches Yielded."
  \<^item> "An abort request drives Active/Yielding \<open>\<rightarrow>\<close> Aborting; once every worker has unwound,
    the task reaches Aborted."
  \<^item> "Normal finish drives Active \<open>\<rightarrow>\<close> Completing \<open>\<rightarrow>\<close> Completed."
  \<^item> \<open>yielded_workers\<close> counts the "workers that have reached their yield point and are
    parked".
  \<^item> A worker calls \<open>work\<close> with its own index when it begins, and only then.
\<close>

definition occur :: "event \<Rightarrow> gang_state \<Rightarrow> gang_state" where
  "occur e s =
    (case task s of
       None \<Rightarrow> s
     | Some p \<Rightarrow>
        (case heap s p of
           None \<Rightarrow> s
         | Some t \<Rightarrow>
            (case e of
               Yield_request \<Rightarrow>
                 if status t = ACTIVE
                 then s\<lparr>heap := (heap s)(p \<mapsto> set_status YIELDING t)\<rparr>
                 else s
             | Abort_request \<Rightarrow>
                 if status t = ACTIVE \<or> status t = YIELDING
                 then s\<lparr>heap := (heap s)(p \<mapsto> set_status ABORTING t)\<rparr>
                 else s
             | Begin i \<Rightarrow>
                 if i < length (workers s) \<and> workers s ! i = Released
                 then s\<lparr>workers := (workers s)[i := Working],
                        work_calls := work_calls s @ [i]\<rparr>
                 else s
             | Report i Rep_yielded \<Rightarrow>
                 if i < length (workers s) \<and> workers s ! i = Working \<and> status t = YIELDING
                 then
                   let ws = (workers s)[i := At_yield_point] in
                   s\<lparr>workers := ws,
                     yielded_workers := yielded_workers s + 1,
                     heap := (heap s)(p \<mapsto> set_status (settle ws YIELDING) t)\<rparr>
                 else s
             | Report i Rep_completed \<Rightarrow>
                 if i < length (workers s) \<and> workers s ! i = Working
                 then
                   let ws = (workers s)[i := At_station];
                       st = (if status t = ACTIVE then COMPLETING else status t)
                   in s\<lparr>workers := ws,
                        heap := (heap s)(p \<mapsto> set_status (settle ws st) t)\<rparr>
                 else s
             | Report i Rep_aborted \<Rightarrow>
                 if i < length (workers s)
                    \<and> (workers s ! i = Working \<or> workers s ! i = At_yield_point)
                    \<and> status t = ABORTING
                 then
                   let ws = (workers s)[i := At_station];
                       y = (if workers s ! i = At_yield_point
                            then yielded_workers s - 1 else yielded_workers s)
                   in s\<lparr>workers := ws,
                        yielded_workers := y,
                        heap := (heap s)(p \<mapsto> set_status (settle ws ABORTING) t)\<rparr>
                 else s)))"

text \<open>
  Modelled from the spec: \<^verbatim>\<open>wait_for_gang\<close> (declared at line 192, defined in
  yieldingWorkgroup.cpp): the caller is held "until the task reaches Yielded, Aborted, or
  Completed". The list is the schedule of the other threads; when it runs out before the
  round is over the caller is still blocked. \<open>run\<close> is the state in which the wait
  stands after the schedule: it takes no further event once the round is over.
\<close>

definition round_over :: "gang_state \<Rightarrow> bool" where
  "round_over s =
     (case yielding_task s of
        None \<Rightarrow> False
      | Some t \<Rightarrow> yielded t \<or> aborted t \<or> completed t)"

fun wait_for_gang :: "event list \<Rightarrow> gang_state \<Rightarrow> gang_state outcome" where
  "wait_for_gang [] s = (if round_over s then Returns s else Blocks)"
| "wait_for_gang (e # es) s =
     (if round_over s then Returns s else wait_for_gang es (occur e s))"

fun run :: "event list \<Rightarrow> gang_state \<Rightarrow> gang_state" where
  "run [] s = s"
| "run (e # es) s = (if round_over s then s else run es (occur e s))"

text \<open>
  Modelled from the spec: \<^verbatim>\<open>start_task\<close> (declared at line 168, defined in
  yieldingWorkgroup.cpp). It "fails (precondition violation) if a task is already running
  on this gang. Resets \<open>active_workers\<close>/\<open>yielded_workers\<close>, computes \<open>actual_size =
  min(task.requested_size, total_workers)\<close>, transitions the task to Active, releases
  \<open>actual_size\<close> workers to begin calling \<open>work\<close>, then blocks the calling thread until the
  task reaches Yielded, Aborted, or Completed". The status of the task is read first:
  "re-dispatching a completed task must be a no-op that returns immediately with no work
  performed" (the result \<open>Inr None\<close>), and since "transition out of Inactive happens only
  when the Coordinator dispatches the task: Inactive \<open>\<rightarrow>\<close> Active", a task in any other
  status is refused. "Running with zero granted workers" is a fatal assertion. The task
  is attached with \<^verbatim>\<open>set_gang\<close> and stays attached: \<^verbatim>\<open>reset()\<close>, which would detach
  it, is declared at line 206 as not yet implemented and is left out. \<open>dispatch\<close> is the
  part of \<^verbatim>\<open>start_task\<close> before the wait.
\<close>

definition dispatch :: "gang_state \<Rightarrow> nat \<Rightarrow> gang_failure + gang_state option" where
  "dispatch s new_task_p =
    (if task s \<noteq> None then Inl Gang_busy
     else
       case heap s new_task_p of
         None \<Rightarrow> Inl Null_task
       | Some t \<Rightarrow>
          if completed t then Inr None
          else if status t \<noteq> INACTIVE then Inl Not_inactive
          else
            let n = min (requested_size t) (total_workers s) in
            if n \<le> 0 then Inl No_workers
            else
              (case set_gang (Some (g_addr s)) t of
                 Inl f \<Rightarrow> Inl f
               | Inr t' \<Rightarrow>
                  Inr (Some (s\<lparr>task := Some new_task_p,
                               active_workers := n,
                               yielded_workers := 0,
                               workers := replicate (nat n) Released,
                               work_calls := [],
                               heap := (heap s)(new_task_p \<mapsto>
                                         set_status ACTIVE (set_actual_size n t'))\<rparr>))))"

text \<open>
  Modelled from the spec: \<^verbatim>\<open>start_task\<close> as a whole, the dispatch followed by the wait
  under the schedule \<open>sched\<close> of the other threads.
\<close>

definition start_task :: "event list \<Rightarrow> gang_state \<Rightarrow> nat \<Rightarrow> gang_state outcome" where
  "start_task sched s new_task_p =
     (case dispatch s new_task_p of
        Inl f \<Rightarrow> Halt f
      | Inr None \<Rightarrow> Returns s
      | Inr (Some s') \<Rightarrow> wait_for_gang sched s')"

text \<open>
  Modelled from the spec: the release of the workers by \<^verbatim>\<open>continue_task\<close> (declared at
  line 169, defined in yieldingWorkgroup.cpp). It "requires the task is currently
  Yielded; re-releases the same \<open>actual_size\<close> workers (each resumes its own callback
  state) and blocks as in start. Calling continue on a Completed task must return
  immediately with no worker released"; the comment at lines 159--164 says the same of a
  completed task.
\<close>

definition resume :: "gang_state \<Rightarrow> nat \<Rightarrow> YieldingFlexibleGangTask \<Rightarrow> gang_state" where
  "resume s p t =
     s\<lparr>yielded_workers := 0,
       workers := replicate (nat (actual_size t)) Released,
       work_calls := [],
       heap := (heap s)(p \<mapsto> set_status ACTIVE t)\<rparr>"

text \<open>
  Modelled from the spec: \<^verbatim>\<open>continue_task\<close> as a whole. The test for a completed task
  comes first, so that such a call returns "immediately".
\<close>

definition continue_task :: "event list \<Rightarrow> gang_state \<Rightarrow> nat \<Rightarrow> gang_state outcome" where
  "continue_task sched s gang_task_p =
     (case heap s gang_task_p of
        None \<Rightarrow> Halt Null_task
      | Some t \<Rightarrow>
         if completed t then Returns s
         else if task s = Some gang_task_p \<and> yielded t
         then wait_for_gang sched (resume s gang_task_p t)
         else Halt Not_yielded)"

text \<open>Calling \<^verbatim>\<open>continue_task\<close> \<open>n\<close> times in a row on the same task.\<close>

fun continue_times :: "nat \<Rightarrow> event list \<Rightarrow> gang_state \<Rightarrow> nat \<Rightarrow> gang_state outcome" where
  "continue_times 0 sched s p = Returns s"
| "continue_times (Suc n) sched s p =
     (case continue_task sched s p of
        Returns s' \<Rightarrow> continue_times n sched s' p
      | Halt f \<Rightarrow> Halt f
      | Blocks \<Rightarrow> Blocks)"

subsection \<open>Schedules and the state of a round\<close>

text \<open>
  The steps that bring the worker \<open>i\<close> back to its station from wherever it is: it begins
  if it has not, it finishes if it is working, and it unwinds if it is parked at its yield
  point under an abort; the steps that do not apply have no effect. \<open>finish_from k m\<close>
  does so for the workers \<open>k, ..., k + m - 1\<close> in turn.
\<close>

definition finish_worker :: "nat \<Rightarrow> event list" where
  "finish_worker i = [Begin i, Report i Rep_completed, Report i Rep_aborted]"

definition finish_from :: "nat \<Rightarrow> nat \<Rightarrow> event list" where
  "finish_from k m = concat (map finish_worker [k..<k + m])"

text \<open>
  What holds of the gang throughout a round on the task at \<open>p\<close>: the task is attached
  and not Inactive; when the round is over every worker has reported; when every worker
  has reported the round is over, unless an abort still waits for a worker parked at its
  yield point; and \<open>work(i)\<close> has been called once by every worker that has begun and by
  no one else.
\<close>

definition in_round :: "nat \<Rightarrow> gang_state \<Rightarrow> bool" where
  "in_round p s =
     (task s = Some p
      \<and> (\<exists>t. heap s p = Some t \<and> status t \<noteq> INACTIVE
             \<and> (round_over s \<longrightarrow> all_reported (workers s))
             \<and> (all_reported (workers s) \<longrightarrow>
                  round_over s
                  \<or> status t = ABORTING \<and> \<not> all_at_station (workers s)))
      \<and> (\<forall>i. count_list (work_calls s) i
               = (if i < length (workers s) \<and> workers s ! i \<noteq> Released then 1 else 0)))"

text \<open>
  The worker \<open>j\<close> needs no further step: it is at its station, or parked at its yield
  point while no abort is pending.
\<close>

definition settled :: "gang_state \<Rightarrow> nat \<Rightarrow> bool" where
  "settled s j =
     (workers s ! j = At_station
      \<or> workers s ! j = At_yield_point
         \<and> (case yielding_task s of None \<Rightarrow> True | Some t \<Rightarrow> status t \<noteq> ABORTING))"

subsection \<open>Concrete tasks and gangs\<close>

text \<open>
  A gang of \<open>n\<close> workers at address 7, with no task attached, that can reach the tasks of
  \<open>h\<close>; and a heap holding one task at address 0.
\<close>

definition idle_gang :: "int \<Rightarrow> (nat \<Rightarrow> YieldingFlexibleGangTask option) \<Rightarrow> gang_state" where
  "idle_gang n h =
     \<lparr>g_addr = 7, total_workers = n, task = None, active_workers = 0,
      yielded_workers = 0, workers = [], work_calls = [], heap = h\<rparr>"

definition one_task :: "YieldingFlexibleGangTask \<Rightarrow> nat \<Rightarrow> YieldingFlexibleGangTask option" where
  "one_task t = (\<lambda>p. if p = 0 then Some t else None)"

text \<open>
  \<open>task_R2\<close> is a new task that requests two workers; \<open>bound_task\<close> is such a task
  already attached to a gang at address 9; \<open>busy_gang\<close> is the gang of four workers right
  after it has dispatched the task at address 0, with a second task at address 1;
  \<open>done_gang\<close> is the gang after both granted workers have begun and finished that task.
\<close>

definition two_tasks ::
  "YieldingFlexibleGangTask \<Rightarrow> YieldingFlexibleGangTask \<Rightarrow> nat \<Rightarrow> YieldingFlexibleGangTask option"
  where
  "two_tasks t u = (\<lambda>p. if p = 0 then Some t else if p = 1 then Some u else None)"

definition task_R2 :: YieldingFlexibleGangTask where
  "task_R2 = set_requested_size 2 (new_task 0)"

definition bound_task :: YieldingFlexibleGangTask where
  "bound_task = task_R2\<lparr>t_gang := Some 9\<rparr>"

definition running_task :: YieldingFlexibleGangTask where
  "running_task =
     \<lparr>t_status = ACTIVE, t_gang = Some 7, t_actual_size = 2, t_requested_size = 2\<rparr>"

definition busy_gang :: gang_state where
  "busy_gang =
     \<lparr>g_addr = 7, total_workers = 4, task = Some 0, active_workers = 2,
      yielded_workers = 0, workers = [Released, Released], work_calls = [],
      heap = two_tasks running_task task_R2\<rparr>"

definition done_task :: YieldingFlexibleGangTask where
  "done_task =
     \<lparr>t_status = COMPLETED, t_gang = Some 7, t_actual_size = 2, t_requested_size = 2\<rparr>"

definition done_gang :: gang_state where
  "done_gang =
     \<lparr>g_addr = 7, total_workers = 4, task = Some 0, active_workers = 2,
      yielded_workers = 0, workers = [At_station, At_station], work_calls = [0, 1],
      heap = one_task done_task\<rparr>"

section \<open>Properties of the lock verifier\<close>

lemmas thr_defs = vm_thr_def cms_thr_def java_thr_def worker_thr_def watcher_thr_def
lemmas role_defs = coordinator_role_def collector_role_def worker_role_def
  ordinary_role_def classified_def
lemmas lock_defs = assert_locked_def assert_lock_strong_def held_by_def unlocked_def
  rt_of_def

subsection \<open>Before full initialization\<close>

text \<open>
  C9. While \<^verbatim>\<open>Universe::is_fully_initialized()\<close> is false, \<^verbatim>\<open>assert_locked\<close> returns
  at once, whatever the two locks, the calling thread, the tokens and the lock owners
  are: no assertion can fail.
\<close>

theorem assert_locked_uninitialized:
  "\<not> is_fully_initialized rt \<Longrightarrow> assert_locked rt lock p_lock = Inr ()"
  by (simp add: assert_locked_def)

theorem assert_locked_uninitialized_witness:
  "\<not> is_fully_initialized (rt_of False 4 watcher_thr)
   \<and> assert_locked (rt_of False 4 watcher_thr) None (Some (held_by java_thr watcher_thr))
       = Inr ()"
  using assert_locked_uninitialized
    [of "rt_of False 4 watcher_thr" None "Some (held_by java_thr watcher_thr)"]
  by (simp add: rt_of_def)

subsection \<open>A worker thread and a lock held on its behalf\<close>

text \<open>
  Before full initialization a worker's call passes although the lock is held by a
  Java thread, which is neither the VM thread nor the CMS thread: the early return of
  line 40 comes before the test of the owner.
\<close>

theorem worker_delegation_uninitialized:
  "worker_role (current (rt_of False 4 worker_thr))
   \<and> 0 < ParallelGCThreads (rt_of False 4 worker_thr)
   \<and> owner (held_by java_thr worker_thr) \<noteq> vm_thread (rt_of False 4 worker_thr)
   \<and> owner (held_by java_thr worker_thr) \<noteq> cmst (rt_of False 4 worker_thr)
   \<and> assert_locked (rt_of False 4 worker_thr) (Some (held_by java_thr worker_thr)) None
       = Inr ()"
  by (simp add: lock_defs thr_defs role_defs)

text \<open>
  C5. Once the runtime is fully initialized: for a call with a non-null lock, with
  \<^verbatim>\<open>ParallelGCThreads > 0\<close> and from a thread whose role is worker, the check passes if
  and only if some thread holds the lock and that thread is the VM thread or the CMS
  thread, whatever the secondary lock is and whatever \<^verbatim>\<open>owned_by_self()\<close> answers. A
  worker that is the owner of the lock itself, being neither of these two threads, fails
  the check. This is stated for a lock that some thread holds, and for a lock that nobody
  holds when both the VM thread and the CMS thread exist; nothing is stated of a lock that
  nobody holds while \<^verbatim>\<open>vm_thread()\<close> or \<^verbatim>\<open>cmst()\<close> is \<^verbatim>\<open>NULL\<close>.
\<close>

theorem worker_delegation:
  assumes "is_fully_initialized rt" and "0 < ParallelGCThreads rt"
    and "worker_role (current rt)"
    and "owner l \<noteq> None \<or> (vm_thread rt \<noteq> None \<and> cmst rt \<noteq> None)"
  shows "((assert_locked rt (Some l) p_lock = Inr ())
            = (\<exists>a. owner l = Some a \<and> (vm_thread rt = Some a \<or> cmst rt = Some a)))
         \<and> (owner l = Some (addr (current rt)) \<and> vm_thread rt \<noteq> Some (addr (current rt))
              \<and> cmst rt \<noteq> Some (addr (current rt))
            \<longrightarrow> assert_locked rt (Some l) p_lock = Inl Not_locked_on_my_behalf)"
  using assms by (auto simp: assert_locked_def worker_role_def Let_def)

theorem worker_delegation_witness:
  "assert_locked (rt_of True 4 worker_thr) (Some (held_by vm_thr worker_thr)) None = Inr ()
   \<and> assert_locked (rt_of True 4 worker_thr) (Some (held_by cms_thr worker_thr))
       (Some unlocked) = Inr ()
   \<and> assert_locked (rt_of True 4 worker_thr) (Some (held_by java_thr worker_thr)) None
       \<noteq> Inr ()
   \<and> assert_locked (rt_of True 4 worker_thr) (Some (held_by worker_thr worker_thr)) None
       = Inl Not_locked_on_my_behalf
   \<and> assert_locked (rt_of True 4 worker_thr) (Some unlocked) None \<noteq> Inr ()
   \<and> assert_locked ((rt_of True 4 worker_thr)\<lparr>cmst := None\<rparr>)
       (Some (held_by vm_thr worker_thr)) None = Inr ()
   \<and> assert_locked ((rt_of True 4 worker_thr)\<lparr>cmst := None\<rparr>)
       (Some (held_by java_thr worker_thr)) None \<noteq> Inr ()"
  using worker_delegation [of "rt_of True 4 worker_thr" "held_by vm_thr worker_thr" None]
    worker_delegation [of "rt_of True 4 worker_thr" "held_by cms_thr worker_thr" "Some unlocked"]
    worker_delegation [of "rt_of True 4 worker_thr" "held_by java_thr worker_thr" None]
    worker_delegation [of "rt_of True 4 worker_thr" "held_by worker_thr worker_thr" None]
    worker_delegation [of "rt_of True 4 worker_thr" unlocked None]
    worker_delegation [of "(rt_of True 4 worker_thr)\<lparr>cmst := None\<rparr>"
      "held_by vm_thr worker_thr" None]
    worker_delegation [of "(rt_of True 4 worker_thr)\<lparr>cmst := None\<rparr>"
      "held_by java_thr worker_thr" None]
  by (simp add: rt_of_def thr_defs worker_role_def held_by_def unlocked_def)

subsection \<open>A null lock\<close>

text \<open>
  Two calls with a null lock. Before full initialization a Java thread passes. After
  it, a worker thread that passes a non-null secondary lock fails the assertion of
  line 46.
\<close>

theorem null_lock_two_calls:
  "ordinary_role (current (rt_of False 4 java_thr))
   \<and> assert_locked (rt_of False 4 java_thr) None None = Inr ()
   \<and> worker_role (current (rt_of True 4 worker_thr))
   \<and> assert_locked (rt_of True 4 worker_thr) None (Some unlocked) = Inl Unexpected_state"
  by (simp add: lock_defs thr_defs role_defs)

text \<open>
  C6. Once the runtime is fully initialized, a call with a null lock and a null
  secondary lock passes exactly when the caller is a concurrent GC thread, is the
  designated CMS thread and the CMS thread holds the CMS token; or else is the VM thread
  and the VM thread holds the token; or else is a GC task thread. For a thread that
  answers yes to at most one role query this reads: the caller is the collector, is the
  designated CMS thread and holds the token, or is the coordinator and holds the token,
  or is a worker. A caller that is none of the three fails the assertion of line 61.
\<close>

theorem null_lock_roles:
  assumes "is_fully_initialized rt"
  shows "((assert_locked rt None None = Inr ())
            = (is_ConcurrentGC_thread (current rt) \<and> Some (addr (current rt)) = cmst rt
                 \<and> cms_thread_has_cms_token rt
               \<or> \<not> is_ConcurrentGC_thread (current rt) \<and> is_VM_thread (current rt)
                 \<and> vm_thread_has_cms_token rt
               \<or> \<not> is_ConcurrentGC_thread (current rt) \<and> \<not> is_VM_thread (current rt)
                 \<and> is_GC_task_thread (current rt)))
         \<and> (classified (current rt) \<longrightarrow>
              (assert_locked rt None None = Inr ())
                = (collector_role (current rt) \<and> Some (addr (current rt)) = cmst rt
                     \<and> cms_thread_has_cms_token rt
                   \<or> coordinator_role (current rt) \<and> vm_thread_has_cms_token rt
                   \<or> worker_role (current rt)))
         \<and> (\<not> is_ConcurrentGC_thread (current rt) \<and> \<not> is_VM_thread (current rt)
              \<and> \<not> is_GC_task_thread (current rt)
            \<longrightarrow> assert_locked rt None None = Inl Unexpected_thread_type)"
proof -
  have 1: "(assert_locked rt None None = Inr ())
            = (is_ConcurrentGC_thread (current rt) \<and> Some (addr (current rt)) = cmst rt
                 \<and> cms_thread_has_cms_token rt
               \<or> \<not> is_ConcurrentGC_thread (current rt) \<and> is_VM_thread (current rt)
                 \<and> vm_thread_has_cms_token rt
               \<or> \<not> is_ConcurrentGC_thread (current rt) \<and> \<not> is_VM_thread (current rt)
                 \<and> is_GC_task_thread (current rt))"
    using assms by (auto simp: assert_locked_def Let_def)
  have 2: "(assert_locked rt None None = Inr ())
                = (collector_role (current rt) \<and> Some (addr (current rt)) = cmst rt
                     \<and> cms_thread_has_cms_token rt
                   \<or> coordinator_role (current rt) \<and> vm_thread_has_cms_token rt
                   \<or> worker_role (current rt))"
    if "classified (current rt)"
    using that unfolding 1 by (auto simp: role_defs)
  have 3: "assert_locked rt None None = Inl Unexpected_thread_type"
    if "\<not> is_ConcurrentGC_thread (current rt) \<and> \<not> is_VM_thread (current rt)
         \<and> \<not> is_GC_task_thread (current rt)"
    using that assms by (simp add: assert_locked_def Let_def)
  from 1 2 3 show ?thesis by blast
qed

theorem null_lock_roles_witness:
  "assert_locked (rt_of True 4 cms_thr) None None = Inr ()
   \<and> assert_locked (rt_of True 4 vm_thr) None None = Inr ()
   \<and> assert_locked (rt_of True 4 worker_thr) None None = Inr ()
   \<and> assert_locked (rt_of True 4 java_thr) None None = Inl Unexpected_thread_type
   \<and> assert_locked (rt_of True 4 watcher_thr) None None = Inl Unexpected_thread_type
   \<and> assert_locked ((rt_of True 4 vm_thr)\<lparr>vm_thread_has_cms_token := False\<rparr>) None None
       \<noteq> Inr ()
   \<and> assert_locked ((rt_of True 4 cms_thr)\<lparr>cmst := Some 6\<rparr>) None None \<noteq> Inr ()"
  using null_lock_roles [of "rt_of True 4 cms_thr"]
    null_lock_roles [of "rt_of True 4 vm_thr"]
    null_lock_roles [of "rt_of True 4 worker_thr"]
    null_lock_roles [of "rt_of True 4 java_thr"]
    null_lock_roles [of "rt_of True 4 watcher_thr"]
    null_lock_roles [of "(rt_of True 4 vm_thr)\<lparr>vm_thread_has_cms_token := False\<rparr>"]
    null_lock_roles [of "(rt_of True 4 cms_thr)\<lparr>cmst := Some 6\<rparr>"]
  by (simp add: rt_of_def thr_defs role_defs)

subsection \<open>A non-null lock that the caller must hold\<close>

text \<open>
  Before full initialization, with no parallel workers, a Java thread passes with a lock
  that the VM thread holds.
\<close>

theorem nonnull_lock_uninitialized:
  "\<not> owned_by_self (held_by vm_thr java_thr)
   \<and> assert_locked (rt_of False 0 java_thr) (Some (held_by vm_thr java_thr)) None = Inr ()"
  by (simp add: lock_defs thr_defs)

text \<open>
  C7. Once the runtime is fully initialized, for a call with a non-null lock: when
  \<^verbatim>\<open>ParallelGCThreads\<close> is 0 the check passes exactly when the calling thread holds the
  lock, whatever the secondary lock is; when \<^verbatim>\<open>ParallelGCThreads > 0\<close> and the caller is
  the coordinator, the collector or an ordinary thread, it passes exactly when the
  caller holds the lock and the secondary lock, if there is one, is unlocked or held by
  the caller.
\<close>

theorem nonnull_lock_direct:
  assumes "is_fully_initialized rt"
  shows "(ParallelGCThreads rt = 0 \<longrightarrow>
            (assert_locked rt (Some l) p_lock = Inr ()) = owned_by_self l)
         \<and> (0 < ParallelGCThreads rt
              \<and> (is_VM_thread (current rt) \<or> is_ConcurrentGC_thread (current rt)
                 \<or> is_Java_thread (current rt)) \<longrightarrow>
            (assert_locked rt (Some l) p_lock = Inr ())
              = (owned_by_self l
                 \<and> (case p_lock of
                       None \<Rightarrow> True
                     | Some p \<Rightarrow> \<not> is_locked p \<or> owned_by_self p)))"
  using assms
  by (auto simp: assert_locked_def assert_lock_strong_def Let_def split: option.splits)

theorem nonnull_lock_direct_witness:
  "assert_locked (rt_of True 0 java_thr) (Some (held_by java_thr java_thr))
       (Some (held_by vm_thr java_thr)) = Inr ()
   \<and> assert_locked (rt_of True 0 java_thr) (Some (held_by vm_thr java_thr)) None \<noteq> Inr ()
   \<and> assert_locked (rt_of True 4 vm_thr) (Some (held_by vm_thr vm_thr)) None = Inr ()
   \<and> assert_locked (rt_of True 4 cms_thr) (Some (held_by cms_thr cms_thr)) (Some unlocked)
       = Inr ()
   \<and> assert_locked (rt_of True 4 java_thr) (Some (held_by java_thr java_thr))
       (Some (held_by java_thr java_thr)) = Inr ()
   \<and> assert_locked (rt_of True 4 vm_thr) (Some (held_by vm_thr vm_thr))
       (Some (held_by worker_thr vm_thr)) \<noteq> Inr ()
   \<and> assert_locked (rt_of True 4 vm_thr) (Some (held_by cms_thr vm_thr)) None \<noteq> Inr ()"
  using nonnull_lock_direct [of "rt_of True 0 java_thr" "held_by java_thr java_thr"
      "Some (held_by vm_thr java_thr)"]
    nonnull_lock_direct [of "rt_of True 0 java_thr" "held_by vm_thr java_thr" None]
    nonnull_lock_direct [of "rt_of True 4 vm_thr" "held_by vm_thr vm_thr" None]
    nonnull_lock_direct [of "rt_of True 4 cms_thr" "held_by cms_thr cms_thr" "Some unlocked"]
    nonnull_lock_direct [of "rt_of True 4 java_thr" "held_by java_thr java_thr"
      "Some (held_by java_thr java_thr)"]
    nonnull_lock_direct [of "rt_of True 4 vm_thr" "held_by vm_thr vm_thr"
      "Some (held_by worker_thr vm_thr)"]
    nonnull_lock_direct [of "rt_of True 4 vm_thr" "held_by cms_thr vm_thr" None]
  by (simp add: rt_of_def thr_defs held_by_def unlocked_def)

subsection \<open>A null lock with a secondary lock\<close>

text \<open>
  Before full initialization a call with a null lock and a non-null secondary lock
  returns normally.
\<close>

theorem null_lock_p_lock_uninitialized:
  "assert_locked (rt_of False 4 worker_thr) None (Some unlocked) = Inr ()"
  by (simp add: lock_defs)

text \<open>
  C10. Once the runtime is fully initialized, every call with a null lock and a
  non-null secondary lock fails the assertion of line 46, whatever the role of the
  calling thread and the state of the tokens are: the assertion comes before the role
  tests. When a null lock comes with a null secondary lock (or the lock is not null),
  that assertion does not fail.
\<close>

theorem null_lock_needs_null_p_lock:
  "(is_fully_initialized rt \<longrightarrow> assert_locked rt None (Some p) = Inl Unexpected_state)
   \<and> ((lock = None \<longrightarrow> p_lock = None)
        \<longrightarrow> assert_locked rt lock p_lock \<noteq> Inl Unexpected_state)"
  by (auto simp: assert_locked_def assert_lock_strong_def Let_def split: option.splits)

theorem null_lock_needs_null_p_lock_witness:
  "assert_locked (rt_of True 4 worker_thr) None (Some unlocked) = Inl Unexpected_state
   \<and> assert_locked (rt_of True 4 java_thr) None (Some (held_by java_thr java_thr))
       = Inl Unexpected_state
   \<and> assert_locked (rt_of True 4 java_thr) None None \<noteq> Inl Unexpected_state
   \<and> assert_locked (rt_of True 4 java_thr) (Some unlocked) (Some unlocked)
       \<noteq> Inl Unexpected_state"
  using null_lock_needs_null_p_lock [of "rt_of True 4 worker_thr" unlocked None None]
    null_lock_needs_null_p_lock [of "rt_of True 4 java_thr" "held_by java_thr java_thr" None None]
    null_lock_needs_null_p_lock [of "rt_of True 4 java_thr" unlocked "Some unlocked"
      "Some unlocked"]
  by (simp add: rt_of_def)

section \<open>Properties of the yielding work gang\<close>

lemmas task_defs = status_def yielded_def completed_def aborted_def active_def
  requested_size_def actual_size_def set_status_def set_actual_size_def
  set_requested_size_def set_gang_def new_task_def
lemmas gang_consts = idle_gang_def one_task_def two_tasks_def task_R2_def bound_task_def
  running_task_def busy_gang_def done_task_def done_gang_def

subsection \<open>The concrete gangs are what the operations produce\<close>

lemma dispatch_busy_gang:
  "dispatch (idle_gang 4 (two_tasks task_R2 task_R2)) 0 = Inr (Some busy_gang)"
  by (auto simp add: dispatch_def Let_def task_defs gang_consts fun_eq_iff numeral_2_eq_2)

lemma start_task_done_gang:
  "start_task (finish_from 0 2) (idle_gang 4 (one_task task_R2)) 0 = Returns done_gang"
  by (auto simp add: start_task_def dispatch_def Let_def task_defs gang_consts fun_eq_iff
      finish_from_def finish_worker_def upt_rec round_over_def yielding_task_def occur_def
      settle_def all_reported_def all_at_station_def numeral_2_eq_2)

text \<open>
  A yield request followed by the normal finish of both workers ends the round: the
  task is Yielded.
\<close>

lemma yield_then_all_complete:
  "\<exists>s'. start_task [Yield_request, Begin 0, Report 0 Rep_completed, Begin 1,
        Report 1 Rep_completed] (idle_gang 4 (one_task task_R2)) 0 = Returns s'
     \<and> map_option status (yielding_task s') = Some YIELDED"
  by (auto simp add: start_task_def dispatch_def Let_def task_defs gang_consts
      round_over_def yielding_task_def occur_def
      settle_def all_reported_def all_at_station_def numeral_2_eq_2)

subsection \<open>What an event leaves alone\<close>

lemma occur_frame:
  "task (occur e s) = task s
   \<and> active_workers (occur e s) = active_workers s
   \<and> total_workers (occur e s) = total_workers s
   \<and> g_addr (occur e s) = g_addr s
   \<and> length (workers (occur e s)) = length (workers s)"
  by (simp add: occur_def Let_def split: option.splits event.splits report.splits)

lemma occur_heap_frame:
  "map_option t_actual_size (heap (occur e s) q) = map_option t_actual_size (heap s q)
   \<and> map_option t_gang (heap (occur e s) q) = map_option t_gang (heap s q)
   \<and> map_option t_requested_size (heap (occur e s) q)
       = map_option t_requested_size (heap s q)"
  by (simp add: occur_def Let_def set_status_def
      split: option.splits event.splits report.splits)

lemma run_over: "round_over s \<Longrightarrow> run es s = s"
  by (cases es) simp_all

lemma run_append: "run (es @ es') s = run es' (run es s)"
  by (induction es arbitrary: s) (simp_all add: run_over)

lemma wait_for_gang_run:
  "wait_for_gang es s = (if round_over (run es s) then Returns (run es s) else Blocks)"
  by (induction es arbitrary: s) simp_all

lemma run_frame:
  "task (run es s) = task s
   \<and> active_workers (run es s) = active_workers s
   \<and> length (workers (run es s)) = length (workers s)
   \<and> map_option t_actual_size (heap (run es s) q) = map_option t_actual_size (heap s q)"
  by (induction es arbitrary: s) (simp_all add: occur_frame occur_heap_frame)

subsection \<open>The events one by one\<close>

lemma all_reported_nth:
  "all_reported ws = (\<forall>j<length ws. ws ! j = At_yield_point \<or> ws ! j = At_station)"
  by (simp add: all_reported_def list_all_length)

lemma all_at_station_nth:
  "all_at_station ws = (\<forall>j<length ws. ws ! j = At_station)"
  by (simp add: all_at_station_def list_all_length)

lemma round_over_attached:
  "task s = Some p \<Longrightarrow> heap s p = Some t \<Longrightarrow>
   round_over s = (status t = YIELDED \<or> status t = ABORTED \<or> status t = COMPLETED)"
  by (simp add: round_over_def yielding_task_def task_defs)

lemma occur_Yield_request:
  "task s = Some p \<Longrightarrow> heap s p = Some t \<Longrightarrow>
   occur Yield_request s =
     (if status t = ACTIVE then s\<lparr>heap := (heap s)(p \<mapsto> set_status YIELDING t)\<rparr> else s)"
  by (simp add: occur_def)

lemma occur_Abort_request:
  "task s = Some p \<Longrightarrow> heap s p = Some t \<Longrightarrow>
   occur Abort_request s =
     (if status t = ACTIVE \<or> status t = YIELDING
      then s\<lparr>heap := (heap s)(p \<mapsto> set_status ABORTING t)\<rparr> else s)"
  by (simp add: occur_def)

lemma occur_Begin:
  "task s = Some p \<Longrightarrow> heap s p = Some t \<Longrightarrow>
   occur (Begin i) s =
     (if i < length (workers s) \<and> workers s ! i = Released
      then s\<lparr>workers := (workers s)[i := Working], work_calls := work_calls s @ [i]\<rparr>
      else s)"
  by (simp add: occur_def)

lemma occur_Rep_yielded:
  "task s = Some p \<Longrightarrow> heap s p = Some t \<Longrightarrow>
   occur (Report i Rep_yielded) s =
     (if i < length (workers s) \<and> workers s ! i = Working \<and> status t = YIELDING
      then s\<lparr>workers := (workers s)[i := At_yield_point],
             yielded_workers := yielded_workers s + 1,
             heap := (heap s)(p \<mapsto>
               set_status (settle ((workers s)[i := At_yield_point]) YIELDING) t)\<rparr>
      else s)"
  by (simp add: occur_def Let_def)

lemma occur_Rep_completed:
  "task s = Some p \<Longrightarrow> heap s p = Some t \<Longrightarrow>
   occur (Report i Rep_completed) s =
     (if i < length (workers s) \<and> workers s ! i = Working
      then s\<lparr>workers := (workers s)[i := At_station],
             heap := (heap s)(p \<mapsto>
               set_status (settle ((workers s)[i := At_station])
                 (if status t = ACTIVE then COMPLETING else status t)) t)\<rparr>
      else s)"
  by (simp add: occur_def Let_def)

lemma occur_Rep_aborted:
  "task s = Some p \<Longrightarrow> heap s p = Some t \<Longrightarrow>
   occur (Report i Rep_aborted) s =
     (if i < length (workers s)
         \<and> (workers s ! i = Working \<or> workers s ! i = At_yield_point)
         \<and> status t = ABORTING
      then s\<lparr>workers := (workers s)[i := At_station],
             yielded_workers := (if workers s ! i = At_yield_point
                                 then yielded_workers s - 1 else yielded_workers s),
             heap := (heap s)(p \<mapsto>
               set_status (settle ((workers s)[i := At_station]) ABORTING) t)\<rparr>
      else s)"
  by (auto simp add: occur_def Let_def)

lemma in_roundI:
  assumes "task s = Some p" and "heap s p = Some t" and "status t \<noteq> INACTIVE"
    and "round_over s \<Longrightarrow> all_reported (workers s)"
    and "all_reported (workers s) \<Longrightarrow>
           round_over s \<or> status t = ABORTING \<and> \<not> all_at_station (workers s)"
    and "\<And>i. count_list (work_calls s) i
               = (if i < length (workers s) \<and> workers s ! i \<noteq> Released then 1 else 0)"
  shows "in_round p s"
  using assms unfolding in_round_def by blast

lemma in_roundD:
  assumes "in_round p s"
  obtains t where "task s = Some p" and "heap s p = Some t" and "status t \<noteq> INACTIVE"
    and "round_over s \<longrightarrow> all_reported (workers s)"
    and "all_reported (workers s) \<longrightarrow>
           round_over s \<or> status t = ABORTING \<and> \<not> all_at_station (workers s)"
    and "\<forall>i. count_list (work_calls s) i
               = (if i < length (workers s) \<and> workers s ! i \<noteq> Released then 1 else 0)"
  using assms unfolding in_round_def by blast

text \<open>A step that changes the status of the attached task only.\<close>

lemma in_round_status:
  assumes "task s = Some p" and "heap s p = Some t"
    and "st \<noteq> INACTIVE" and "st \<noteq> YIELDED" and "st \<noteq> ABORTED" and "st \<noteq> COMPLETED"
    and "\<not> all_reported (workers s)"
    and "\<forall>i. count_list (work_calls s) i
               = (if i < length (workers s) \<and> workers s ! i \<noteq> Released then 1 else 0)"
  shows "in_round p (s\<lparr>heap := (heap s)(p \<mapsto> set_status st t)\<rparr>)"
  using assms
  by (intro in_roundI [where t = "set_status st t"])
     (simp_all add: round_over_def yielding_task_def task_defs)

lemma in_round_request:
  assumes "in_round p s" and "e = Yield_request \<or> e = Abort_request"
  shows "in_round p (occur e s)"
proof -
  from assms(1) obtain t where t: "task s = Some p" "heap s p = Some t" "status t \<noteq> INACTIVE"
    and m: "round_over s \<longrightarrow> all_reported (workers s)"
    and j: "all_reported (workers s) \<longrightarrow>
           round_over s \<or> status t = ABORTING \<and> \<not> all_at_station (workers s)"
    and k: "\<forall>i. count_list (work_calls s) i
               = (if i < length (workers s) \<and> workers s ! i \<noteq> Released then 1 else 0)"
    by (rule in_roundD)
  have nr: "\<not> all_reported (workers s)" if "status t = ACTIVE \<or> status t = YIELDING"
    using j that t by (auto simp: round_over_attached)
  from assms(2) show ?thesis
  proof
    assume e: "e = Yield_request"
    show ?thesis
      unfolding e occur_Yield_request [OF t(1,2)]
      using assms(1) in_round_status [OF t(1,2), of YIELDING] nr k by simp
  next
    assume e: "e = Abort_request"
    show ?thesis
      unfolding e occur_Abort_request [OF t(1,2)]
      using assms(1) in_round_status [OF t(1,2), of ABORTING] nr k by simp
  qed
qed

lemma in_round_begin:
  assumes "in_round p s"
  shows "in_round p (occur (Begin i) s)"
proof -
  from assms(1) obtain t where t: "task s = Some p" "heap s p = Some t" "status t \<noteq> INACTIVE"
    and m: "round_over s \<longrightarrow> all_reported (workers s)"
    and j: "all_reported (workers s) \<longrightarrow>
           round_over s \<or> status t = ABORTING \<and> \<not> all_at_station (workers s)"
    and k: "\<forall>i. count_list (work_calls s) i
               = (if i < length (workers s) \<and> workers s ! i \<noteq> Released then 1 else 0)"
    by (rule in_roundD)
  show ?thesis
  proof (cases "i < length (workers s) \<and> workers s ! i = Released")
    case False
    with assms show ?thesis by (auto simp add: occur_Begin [OF t(1,2)])
  next
    case True
    define s' where "s' = s\<lparr>workers := (workers s)[i := Working],
                              work_calls := work_calls s @ [i]\<rparr>"
    have eq: "occur (Begin i) s = s'"
      using True by (simp add: occur_Begin [OF t(1,2)] s'_def)
    have nr: "\<not> all_reported (workers s)"
      using True by (auto simp: all_reported_nth)
    have ro: "\<not> round_over s'"
      using m nr t by (simp add: s'_def round_over_def yielding_task_def)
    have nr': "\<not> all_reported (workers s')"
      using True by (auto simp: all_reported_nth s'_def)
    have k': "count_list (work_calls s') q
          = (if q < length (workers s') \<and> workers s' ! q \<noteq> Released then 1 else 0)" for q
      using k True by (auto simp: s'_def nth_list_update)
    have "in_round p s'"
      by (rule in_roundI [where t = t]) (use t ro nr' k' in \<open>simp_all add: s'_def\<close>)
    then show ?thesis by (simp add: eq)
  qed
qed

text \<open>A report: the worker goes from a state in which it has begun to one in which it
  has reported, and the status is settled.\<close>

lemma in_round_reported:
  assumes t: "task s' = Some p" "heap s' p = Some (set_status (settle (workers s') st) t)"
    and st: "st = YIELDING \<or> st = COMPLETING \<or> st = ABORTING"
    and w: "workers s' = (workers s)[i := w]" "w = At_yield_point \<or> w = At_station"
      "i < length (workers s)" "workers s ! i \<noteq> Released"
    and c: "work_calls s' = work_calls s"
    and k: "\<forall>i. count_list (work_calls s) i
               = (if i < length (workers s) \<and> workers s ! i \<noteq> Released then 1 else 0)"
  shows "in_round p s'"
proof (rule in_roundI [where t = "set_status (settle (workers s') st) t"])
  show "task s' = Some p" by (rule t(1))
  show "heap s' p = Some (set_status (settle (workers s') st) t)" by (rule t(2))
  show "status (set_status (settle (workers s') st) t) \<noteq> INACTIVE"
    using st by (auto simp: task_defs settle_def)
  have ro: "round_over s' = (settle (workers s') st = YIELDED
      \<or> settle (workers s') st = ABORTED \<or> settle (workers s') st = COMPLETED)"
    using t by (simp add: round_over_def yielding_task_def task_defs)
  show "all_reported (workers s')" if "round_over s'"
    using that st unfolding ro by (auto simp: settle_def split: if_splits)
  show "round_over s' \<or> status (set_status (settle (workers s') st) t) = ABORTING
          \<and> \<not> all_at_station (workers s')" if "all_reported (workers s')"
    using that st unfolding ro by (auto simp: settle_def task_defs)
  show "count_list (work_calls s') q
          = (if q < length (workers s') \<and> workers s' ! q \<noteq> Released then 1 else 0)" for q
    using k w by (auto simp: c nth_list_update)
qed

lemma in_round_report:
  assumes "in_round p s"
  shows "in_round p (occur (Report i r) s)"
proof -
  from assms(1) obtain t where t: "task s = Some p" "heap s p = Some t" "status t \<noteq> INACTIVE"
    and m: "round_over s \<longrightarrow> all_reported (workers s)"
    and j: "all_reported (workers s) \<longrightarrow>
           round_over s \<or> status t = ABORTING \<and> \<not> all_at_station (workers s)"
    and k: "\<forall>i. count_list (work_calls s) i
               = (if i < length (workers s) \<and> workers s ! i \<noteq> Released then 1 else 0)"
    by (rule in_roundD)
  show ?thesis
  proof (cases "occur (Report i r) s = s")
    case True
    with assms show ?thesis by simp
  next
    case False
    show ?thesis
    proof (cases r)
      case Rep_yielded
      with False have en: "i < length (workers s)" "workers s ! i = Working" "status t = YIELDING"
        by (auto simp: occur_Rep_yielded [OF t(1,2)] split: if_splits)
      show ?thesis
        unfolding Rep_yielded
        by (rule in_round_reported [where s = s and t = t and st = YIELDING and i = i
              and w = At_yield_point])
           (use en t k in \<open>simp_all add: occur_Rep_yielded [OF t(1,2)]\<close>)
    next
      case Rep_completed
      with False have en: "i < length (workers s)" "workers s ! i = Working"
        by (auto simp: occur_Rep_completed [OF t(1,2)] split: if_splits)
      then have "\<not> all_reported (workers s)" by (auto simp: all_reported_nth)
      with m have "\<not> round_over s" by blast
      with t have st: "(if status t = ACTIVE then COMPLETING else status t) = YIELDING
          \<or> (if status t = ACTIVE then COMPLETING else status t) = COMPLETING
          \<or> (if status t = ACTIVE then COMPLETING else status t) = ABORTING"
        by (cases "status t") (auto simp: round_over_attached)
      show ?thesis
        unfolding Rep_completed
        by (rule in_round_reported [where s = s and t = t
              and st = "if status t = ACTIVE then COMPLETING else status t" and i = i
              and w = At_station])
           (use en t k st in \<open>simp_all add: occur_Rep_completed [OF t(1,2)]\<close>)
    next
      case Rep_aborted
      with False have en: "i < length (workers s)"
        "workers s ! i = Working \<or> workers s ! i = At_yield_point" "status t = ABORTING"
        by (auto simp: occur_Rep_aborted [OF t(1,2)] split: if_splits)
      show ?thesis
        unfolding Rep_aborted
        by (rule in_round_reported [where s = s and t = t and st = ABORTING and i = i
              and w = At_station])
           (use en t k in \<open>auto simp add: occur_Rep_aborted [OF t(1,2)]\<close>)
    qed
  qed
qed

lemma in_round_occur: "in_round p s \<Longrightarrow> in_round p (occur e s)"
  by (cases e) (simp_all add: in_round_begin in_round_report in_round_request)

lemma in_round_run: "in_round p s \<Longrightarrow> in_round p (run es s)"
  by (induction es arbitrary: s) (simp_all add: in_round_occur)

subsection \<open>A schedule under which the round ends\<close>

lemma settled_attached:
  "task s = Some p \<Longrightarrow> heap s p = Some t \<Longrightarrow>
   settled s j = (workers s ! j = At_station
                  \<or> workers s ! j = At_yield_point \<and> status t \<noteq> ABORTING)"
  by (simp add: settled_def yielding_task_def)

lemma settle_ABORTING: "settle ws st = ABORTING \<Longrightarrow> st = ABORTING"
  by (auto simp: settle_def split: if_splits)

lemma occur_Begin_other:
  "task s = Some p \<Longrightarrow> heap s p = Some t \<Longrightarrow> j \<noteq> k \<Longrightarrow>
   workers (occur (Begin k) s) ! j = workers s ! j \<and> heap (occur (Begin k) s) = heap s"
  by (simp add: occur_Begin)

lemma occur_Report_other:
  "task s = Some p \<Longrightarrow> heap s p = Some t \<Longrightarrow> j \<noteq> k \<Longrightarrow>
   workers (occur (Report k r) s) ! j = workers s ! j"
  by (cases r) (simp_all add: occur_Rep_yielded occur_Rep_completed occur_Rep_aborted)

lemma occur_Report_ABORTING:
  "task s = Some p \<Longrightarrow> heap s p = Some t \<Longrightarrow> heap (occur (Report k r) s) p = Some t' \<Longrightarrow>
   status t' = ABORTING \<Longrightarrow> status t = ABORTING"
  by (cases r)
     (auto simp add: occur_Rep_yielded occur_Rep_completed occur_Rep_aborted task_defs
       dest!: settle_ABORTING split: if_splits)

text \<open>A step of the worker k leaves the other workers settled.\<close>

lemma settled_occur_other:
  assumes "in_round p s" and "e = Begin k \<or> (\<exists>r. e = Report k r)"
    and "j \<noteq> k" and "settled s j"
  shows "settled (occur e s) j"
proof -
  from assms(1) obtain t where t: "task s = Some p" "heap s p = Some t"
    by (rule in_roundD)
  from in_round_occur [OF assms(1), of e]
  obtain t' where t': "task (occur e s) = Some p" "heap (occur e s) p = Some t'"
    by (rule in_roundD)
  from assms(2) show ?thesis
  proof
    assume e: "e = Begin k"
    from occur_Begin_other [OF t assms(3)] t t' assms(4) show ?thesis
      by (simp add: e settled_attached [OF t] settled_attached [OF t', unfolded e])
  next
    assume "\<exists>r. e = Report k r"
    then obtain r where e: "e = Report k r" ..
    from occur_Report_other [OF t assms(3), of r]
      occur_Report_ABORTING [OF t t'(2) [unfolded e]] assms(4)
    show ?thesis
      by (auto simp add: e settled_attached [OF t] settled_attached [OF t' [unfolded e]])
  qed
qed

lemma settled_run_other:
  "in_round p s \<Longrightarrow> \<forall>e \<in> set es. e = Begin k \<or> (\<exists>r. e = Report k r) \<Longrightarrow>
   j \<noteq> k \<Longrightarrow> settled s j \<Longrightarrow> settled (run es s) j"
proof (induction es arbitrary: s)
  case Nil
  then show ?case by simp
next
  case (Cons e es)
  show ?case
  proof (cases "round_over s")
    case True
    with Cons.prems show ?thesis by simp
  next
    case False
    have "settled (occur e s) j"
      using settled_occur_other [OF Cons.prems(1) _ Cons.prems(3,4), of e] Cons.prems(2)
      by simp
    moreover have "in_round p (occur e s)"
      using Cons.prems(1) by (rule in_round_occur)
    ultimately have "settled (run es (occur e s)) j"
      using Cons.IH [of "occur e s"] Cons.prems(2,3) by simp
    with False show ?thesis by simp
  qed
qed

text \<open>The steps of finish_worker k settle the worker k, unless the round is over before.\<close>

lemma begin_begun:
  assumes "in_round p s" and "k < length (workers s)"
  shows "workers (occur (Begin k) s) ! k \<noteq> Released"
proof -
  from assms(1) obtain t where t: "task s = Some p" "heap s p = Some t"
    by (rule in_roundD)
  show ?thesis using assms(2) by (simp add: occur_Begin [OF t])
qed

lemma completed_reported:
  assumes "in_round p s" and "k < length (workers s)" and "workers s ! k \<noteq> Released"
  shows "workers (occur (Report k Rep_completed) s) ! k = At_yield_point
         \<or> workers (occur (Report k Rep_completed) s) ! k = At_station"
proof -
  from assms(1) obtain t where t: "task s = Some p" "heap s p = Some t"
    by (rule in_roundD)
  show ?thesis using assms(2,3)
    by (cases "workers s ! k") (simp_all add: occur_Rep_completed [OF t])
qed

lemma aborted_settled:
  assumes "in_round p s" and "k < length (workers s)"
    and "workers s ! k = At_yield_point \<or> workers s ! k = At_station"
  shows "settled (occur (Report k Rep_aborted) s) k"
proof -
  from assms(1) obtain t where t: "task s = Some p" "heap s p = Some t"
    by (rule in_roundD)
  from in_round_occur [OF assms(1), of "Report k Rep_aborted"]
  obtain t' where t': "task (occur (Report k Rep_aborted) s) = Some p"
    "heap (occur (Report k Rep_aborted) s) p = Some t'"
    by (rule in_roundD)
  show ?thesis
  proof (cases "workers s ! k = At_yield_point \<and> status t = ABORTING")
    case True
    with assms(2) show ?thesis
      by (simp add: settled_def occur_Rep_aborted [OF t])
  next
    case False
    then have eq: "occur (Report k Rep_aborted) s = s"
      using assms(3) by (auto simp add: occur_Rep_aborted [OF t])
    from False assms(3) show ?thesis
      unfolding eq by (auto simp: settled_attached [OF t])
  qed
qed

lemma finish_worker_settles:
  assumes "in_round p s" and "k < length (workers s)"
  shows "round_over (run (finish_worker k) s) \<or> settled (run (finish_worker k) s) k"
proof -
  let ?s1 = "occur (Begin k) s"
  let ?s2 = "occur (Report k Rep_completed) ?s1"
  let ?s3 = "occur (Report k Rep_aborted) ?s2"
  have i1: "in_round p ?s1" and i2: "in_round p ?s2"
    using assms(1) by (simp_all add: in_round_occur)
  have l1: "k < length (workers ?s1)" and l2: "k < length (workers ?s2)"
    using assms(2) by (simp_all add: occur_frame)
  have "settled ?s3 k"
    using aborted_settled [OF i2 l2] completed_reported [OF i1 l1]
      begin_begun [OF assms] by blast
  then show ?thesis
    by (auto simp add: finish_worker_def)
qed

lemma finish_from_Suc: "finish_from k (Suc m) = finish_worker k @ finish_from (Suc k) m"
  by (simp add: finish_from_def upt_conv_Cons del: upt_Suc)

lemma finish_from_over:
  "in_round p s \<Longrightarrow> length (workers s) = k + m \<Longrightarrow> \<forall>j<k. settled s j \<Longrightarrow>
   round_over (run (finish_from k m) s)"
proof (induction m arbitrary: k s)
  case 0
  from "0.prems"(1) obtain t where t: "task s = Some p" "heap s p = Some t"
    and j: "all_reported (workers s) \<longrightarrow>
           round_over s \<or> status t = ABORTING \<and> \<not> all_at_station (workers s)"
    by (rule in_roundD)
  have all: "\<forall>j<length (workers s). workers s ! j = At_station
                  \<or> workers s ! j = At_yield_point \<and> status t \<noteq> ABORTING"
    using "0.prems"(2,3) by (simp add: settled_attached [OF t])
  then have "all_reported (workers s)" by (auto simp: all_reported_nth)
  with j all have "round_over s" by (auto simp: all_at_station_nth)
  then show ?case by (simp add: finish_from_def)
next
  case (Suc m)
  let ?s = "run (finish_worker k) s"
  have i: "in_round p ?s" using Suc.prems(1) by (rule in_round_run)
  have l: "length (workers ?s) = Suc k + m" using Suc.prems(2) by (simp add: run_frame)
  show ?case
  proof (cases "round_over ?s")
    case True
    then show ?thesis by (simp add: finish_from_Suc run_append run_over)
  next
    case False
    have k: "settled ?s k"
      using finish_worker_settles [OF Suc.prems(1), of k] Suc.prems(2) False by simp
    have "settled ?s j" if "j < k" for j
      using settled_run_other [OF Suc.prems(1), of "finish_worker k" k j] Suc.prems(3) that
      by (simp add: finish_worker_def)
    with k have "\<forall>j<Suc k. settled ?s j" by (auto simp: less_Suc_eq)
    from Suc.IH [OF i l this] show ?thesis
      by (simp add: finish_from_Suc run_append)
  qed
qed

subsection \<open>Continuing a completed task\<close>

text \<open>
  C3. When the task at \<open>p\<close> is Completed, \<^verbatim>\<open>continue_task\<close> returns at once with
  the state it was given, whatever the other threads would do: the status of the task,
  the counters of the gang, the workers and the calls of \<^verbatim>\<open>work\<close> are as before, and
  so they are after any number of repeated calls.
\<close>

theorem continue_completed_task:
  assumes "heap s p = Some t" and "completed t"
  shows "continue_task sched s p = Returns s \<and> continue_times n sched s p = Returns s"
proof -
  have c: "continue_task sched s p = Returns s"
    using assms by (simp add: continue_task_def)
  have "continue_times n sched s p = Returns s"
    by (induction n) (simp_all add: c)
  with c show ?thesis by simp
qed

theorem continue_completed_task_witness:
  "heap done_gang 0 = Some done_task \<and> completed done_task
   \<and> continue_task [Report 0 Rep_completed, Yield_request] done_gang 0 = Returns done_gang
   \<and> continue_times 3 [Report 0 Rep_completed, Yield_request] done_gang 0
       = Returns done_gang"
  using continue_completed_task [of done_gang 0 done_task
      "[Report 0 Rep_completed, Yield_request]" 3]
  by (simp add: done_gang_def done_task_def one_task_def completed_def)

subsection \<open>Starting a task\<close>

lemma dispatch_in_round:
  assumes "task s = None" and "heap s p = Some t" and "status t = INACTIVE"
    and "t_gang t = None" and "1 \<le> min (requested_size t) (total_workers s)"
  defines "n \<equiv> min (requested_size t) (total_workers s)"
  defines "t1 \<equiv> set_status ACTIVE (set_actual_size n (t\<lparr>t_gang := Some (g_addr s)\<rparr>))"
  defines "s1 \<equiv> s\<lparr>task := Some p, active_workers := n, yielded_workers := 0,
      workers := replicate (nat n) Released, work_calls := [],
      heap := (heap s)(p \<mapsto> t1)\<rparr>"
  shows "dispatch s p = Inr (Some s1)" and "in_round p s1"
proof -
  show "dispatch s p = Inr (Some s1)"
    using assms(1-5)
    by (simp add: dispatch_def Let_def set_gang_def n_def [symmetric] s1_def t1_def
        completed_def status_def)
  have "\<not> all_reported (workers s1)"
    using assms(5) by (auto simp add: s1_def all_reported_nth n_def intro!: exI [of _ 0])
  moreover have "\<not> round_over s1"
    by (simp add: s1_def t1_def round_over_def yielding_task_def task_defs)
  ultimately show "in_round p s1"
    by (intro in_roundI [where t = t1]) (simp_all add: s1_def t1_def task_defs)
qed

text \<open>
  Four calls of \<^verbatim>\<open>start_task\<close> on a gang of four workers that do not dispatch: with
  a newly constructed task, which requests 0 workers, so that none is granted; with a gang
  that has a task attached; with a task that is attached to another gang; and with a
  Completed task, which is left Completed and for which no worker is released.
\<close>

theorem start_task_halts:
  "1 \<le> total_workers (idle_gang 4 (one_task (new_task 0)))
   \<and> requested_size (new_task 0) = 0
   \<and> start_task [] (idle_gang 4 (one_task (new_task 0))) 0 = Halt No_workers
   \<and> 1 \<le> total_workers busy_gang
   \<and> start_task [] busy_gang 1 = Halt Gang_busy
   \<and> start_task [] (idle_gang 4 (one_task bound_task)) 0 = Halt Clobber_without_reset
   \<and> completed done_task
   \<and> start_task [] (idle_gang 4 (one_task done_task)) 0
       = Returns (idle_gang 4 (one_task done_task))"
  by (simp add: start_task_def dispatch_def Let_def task_defs gang_consts)

text \<open>
  C4. For a gang with \<open>N \<ge> 1\<close> workers and no task attached, and an Inactive task that
  is attached to no gang and requests \<open>R \<ge> 1\<close> workers, \<^verbatim>\<open>start_task\<close> does not halt.
  Its dispatch sets the actual size of the task and the active workers of the gang to
  \<open>min R N\<close>, the yielded workers to 0 and the status to Active, and releases the workers
  \<open>0, ..., min R N - 1\<close>, none of which has called \<open>work\<close> yet. Then it waits: it returns in
  the first state of the schedule in which the task is Yielded, Aborted or Completed, and
  is blocked as long as there is none. When it returns, the actual size is unchanged and
  the workers have called \<open>work(i)\<close> exactly once for every \<open>i < min R N\<close> and for no
  other \<open>i\<close>. The wait cannot be stuck: whatever the workers and the signalling threads
  have done so far, in any interleaving, there are further steps of the workers after
  which it returns.
\<close>

theorem start_task_round:
  assumes idle: "task s = None"
    and t: "heap s p = Some t" and inactive: "status t = INACTIVE"
    and unbound: "t_gang t = None"
    and N: "1 \<le> total_workers s" and R: "1 \<le> requested_size t"
  shows "\<exists>s1 t1.
           dispatch s p = Inr (Some s1) \<and> yielding_task s1 = Some t1
           \<and> actual_size t1 = min (requested_size t) (total_workers s)
           \<and> active_workers s1 = min (requested_size t) (total_workers s)
           \<and> yielded_workers s1 = 0
           \<and> status t1 = ACTIVE
           \<and> workers s1 = replicate (nat (min (requested_size t) (total_workers s))) Released
           \<and> work_calls s1 = []
           \<and> (\<forall>sched. start_task sched s p
                  = (if round_over (run sched s1) then Returns (run sched s1) else Blocks))
           \<and> (\<forall>sched f. start_task sched s p \<noteq> Halt f)
           \<and> (\<forall>sched s'. start_task sched s p = Returns s' \<longrightarrow>
                 (\<exists>t'. yielding_task s' = Some t'
                    \<and> (yielded t' \<or> aborted t' \<or> completed t')
                    \<and> actual_size t' = min (requested_size t) (total_workers s)
                    \<and> (\<forall>i. count_list (work_calls s') i
                           = (if int i < min (requested_size t) (total_workers s)
                              then 1 else 0))))
           \<and> (\<forall>sched. \<exists>sched' s'. start_task (sched @ sched') s p = Returns s')"
proof -
  define n where "n = min (requested_size t) (total_workers s)"
  define t1 where "t1 = set_status ACTIVE (set_actual_size n (t\<lparr>t_gang := Some (g_addr s)\<rparr>))"
  define s1 where "s1 = s\<lparr>task := Some p, active_workers := n, yielded_workers := 0,
      workers := replicate (nat n) Released, work_calls := [],
      heap := (heap s)(p \<mapsto> t1)\<rparr>"
  have n1: "1 \<le> n" using N R by (simp add: n_def)
  have d: "dispatch s p = Inr (Some s1)" and i1: "in_round p s1"
    using dispatch_in_round [OF idle t inactive unbound] n1
    by (simp_all add: n_def s1_def t1_def)
  have y1: "yielding_task s1 = Some t1" by (simp add: yielding_task_def s1_def)
  have st: "start_task sched s p
      = (if round_over (run sched s1) then Returns (run sched s1) else Blocks)" for sched
    by (simp add: start_task_def d wait_for_gang_run)
  have nh: "start_task sched s p \<noteq> Halt f" for sched f
    by (simp add: st)
  have ret: "\<exists>t'. yielding_task s' = Some t' \<and> (yielded t' \<or> aborted t' \<or> completed t')
                \<and> actual_size t' = n
                \<and> (\<forall>i. count_list (work_calls s') i = (if int i < n then 1 else 0))"
    if "start_task sched s p = Returns s'" for sched s'
  proof -
    from that have s': "s' = run sched s1" and ro: "round_over s'"
      by (auto simp add: st split: if_splits)
    have "in_round p s'" unfolding s' using i1 by (rule in_round_run)
    then obtain t' where t': "task s' = Some p" "heap s' p = Some t'"
      and m: "round_over s' \<longrightarrow> all_reported (workers s')"
      and k: "\<forall>i. count_list (work_calls s') i
               = (if i < length (workers s') \<and> workers s' ! i \<noteq> Released then 1 else 0)"
      by (rule in_roundD)
    have len: "length (workers s') = nat n"
      unfolding s' by (simp add: run_frame s1_def)
    have "map_option t_actual_size (heap s' p) = map_option t_actual_size (heap s1 p)"
      unfolding s' using run_frame [of sched s1 p] by simp
    moreover have "heap s1 p = Some t1" and "t_actual_size t1 = n"
      by (simp_all add: s1_def t1_def task_defs)
    ultimately have sz: "actual_size t' = n"
      using t'(2) by (simp add: actual_size_def)
    have "workers s' ! i \<noteq> Released" if "i < nat n" for i
      using m ro that len by (auto simp: all_reported_nth)
    with k len n1 have "\<forall>i. count_list (work_calls s') i = (if int i < n then 1 else 0)"
      by auto
    moreover have "yielding_task s' = Some t'"
      using t' by (simp add: yielding_task_def)
    moreover from this ro have "yielded t' \<or> aborted t' \<or> completed t'"
      by (simp add: round_over_def)
    ultimately show ?thesis using sz by blast
  qed
  have live: "\<exists>sched' s'. start_task (sched @ sched') s p = Returns s'" for sched
  proof -
    have "in_round p (run sched s1)" using i1 by (rule in_round_run)
    moreover have "length (workers (run sched s1)) = 0 + nat n"
      by (simp add: run_frame s1_def)
    ultimately have "round_over (run (finish_from 0 (nat n)) (run sched s1))"
      by (rule finish_from_over) simp
    then have "start_task (sched @ finish_from 0 (nat n)) s p
        = Returns (run (sched @ finish_from 0 (nat n)) s1)"
      by (simp add: st run_append)
    then show ?thesis by blast
  qed
  have "actual_size t1 = n" "active_workers s1 = n" "yielded_workers s1 = 0" "status t1 = ACTIVE"
    "workers s1 = replicate (nat n) Released" "work_calls s1 = []"
    by (simp_all add: t1_def s1_def task_defs)
  with d y1 st nh ret live show ?thesis
    unfolding n_def [symmetric] by blast
qed

theorem start_task_round_witness:
  "\<exists>s1 t1. dispatch (idle_gang 4 (one_task task_R2)) 0 = Inr (Some s1)
     \<and> yielding_task s1 = Some t1
     \<and> actual_size t1 = 2 \<and> active_workers s1 = 2 \<and> yielded_workers s1 = 0
     \<and> status t1 = ACTIVE
     \<and> workers s1 = [Released, Released] \<and> work_calls s1 = []
     \<and> (\<exists>sched' s'. start_task ([Yield_request, Begin 1] @ sched')
           (idle_gang 4 (one_task task_R2)) 0 = Returns s')"
proof -
  have "task (idle_gang 4 (one_task task_R2)) = None"
    and "heap (idle_gang 4 (one_task task_R2)) 0 = Some task_R2"
    and "status task_R2 = INACTIVE"
    and "t_gang task_R2 = None"
    and "1 \<le> total_workers (idle_gang 4 (one_task task_R2))"
    and "1 \<le> requested_size task_R2"
    by (simp_all add: gang_consts task_defs)
  from start_task_round [OF this]
  obtain s1 t1 where "dispatch (idle_gang 4 (one_task task_R2)) 0 = Inr (Some s1)"
    and "yielding_task s1 = Some t1"
    and "actual_size t1 = min (requested_size task_R2)
           (total_workers (idle_gang 4 (one_task task_R2)))"
    and "active_workers s1 = min (requested_size task_R2)
           (total_workers (idle_gang 4 (one_task task_R2)))"
    and "yielded_workers s1 = 0" and "status t1 = ACTIVE"
    and "workers s1 = replicate (nat (min (requested_size task_R2)
           (total_workers (idle_gang 4 (one_task task_R2))))) Released"
    and "work_calls s1 = []"
    and live: "\<forall>sched. \<exists>sched' s'. start_task (sched @ sched')
           (idle_gang 4 (one_task task_R2)) 0 = Returns s'"
    by blast
  moreover from live have "\<exists>sched' s'. start_task ([Yield_request, Begin 1] @ sched')
           (idle_gang 4 (one_task task_R2)) 0 = Returns s'" ..
  ultimately show ?thesis
    by (intro exI [of _ s1] exI [of _ t1] conjI)
       (simp_all add: idle_gang_def task_R2_def task_defs numeral_2_eq_2)
qed

subsection \<open>Starting a task on a busy gang\<close>

text \<open>
  C8. When the gang has a task attached, \<^verbatim>\<open>start_task\<close> halts with a fatal
  assertion, whatever task it is given and whatever the other threads would do: there is
  no resulting state in which the new task is queued or has replaced the running one.
  And \<^verbatim>\<open>set_gang\<close> with a gang fails its assertion when the gang reference of the task
  is already non-null, and in no other case.
\<close>

theorem start_task_on_busy_gang:
  "(task s \<noteq> None \<longrightarrow> start_task sched s p = Halt Gang_busy)
   \<and> (t_gang t \<noteq> None \<and> g \<noteq> None \<longrightarrow> set_gang g t = Inl Clobber_without_reset)
   \<and> (set_gang g t = Inl Clobber_without_reset) = (t_gang t \<noteq> None \<and> g \<noteq> None)"
  by (simp add: start_task_def dispatch_def set_gang_def)

theorem start_task_on_busy_gang_witness:
  "task busy_gang = Some 0
   \<and> start_task [Report 0 Rep_completed] busy_gang 1 = Halt Gang_busy
   \<and> t_gang running_task = Some 7
   \<and> set_gang (Some 8) running_task = Inl Clobber_without_reset"
  using start_task_on_busy_gang [of busy_gang "[Report 0 Rep_completed]" 1 running_task "Some 8"]
  by (simp add: busy_gang_def running_task_def)

end
